theory Spec2Isabelle
  imports Complex_Main "HOL-Library.Word"
begin

unbundle bit_operations_syntax

section \<open>The live voice session of the tutoring front-end\<close>

text \<open>
  A shallow embedding of \<^verbatim>\<open>src/components/LiveVoiceSession.tsx\<close>: the base64
  transport helpers \<^verbatim>\<open>decode\<close> and \<open>encode\<close>, the inbound decoder
  \<^verbatim>\<open>decodeAudioData\<close>, the capture callback \<^verbatim>\<open>onaudioprocess\<close>, the message
  handler \<^verbatim>\<open>onmessage\<close> with its playback cursor and source set, and the life cycle
  callbacks \<^verbatim>\<open>startSession\<close>, \<^verbatim>\<open>stopSession\<close>, \<^verbatim>\<open>onerror\<close> and \<^verbatim>\<open>onclose\<close>.
\<close>

subsection \<open>Values of the host\<close>

text \<open>
  A \<^verbatim>\<open>Uint8Array\<close> is a list of bytes, an \<^verbatim>\<open>Int16Array\<close> a list of 16-bit words
  (read signed with \<open>sint\<close>), a JavaScript string a list of UTF-16 code units.
\<close>

type_synonym byte = "8 word"
type_synonym int16 = "16 word"
type_synonym jsstring = "16 word list"

text \<open>The exceptions the modelled code paths can raise, by the name of the host's error.\<close>

datatype error = InvalidCharacterError | RangeError | NotSupportedError | TypeError

subsection \<open>The host's \<^verbatim>\<open>btoa\<close> and \<^verbatim>\<open>atob\<close>\<close>

text \<open>
  Modelled from the spec: \<^verbatim>\<open>btoa\<close> and \<^verbatim>\<open>atob\<close> are functions of the browser, so
  their code is not part of the repository. The spec names the transport text base64, and
  the two are rendered here as the browser standard defines them: \<^verbatim>\<open>btoa\<close> is the
  base64 encoder of RFC 4648 (with padding) on a string of code units up to 255, and
  \<^verbatim>\<open>atob\<close> is the forgiving base64 decoder (ASCII whitespace removed, padding
  optional, a remainder of one character or a character outside the alphabet rejected,
  left-over bits discarded).
\<close>

definition b64_alphabet :: jsstring where
  "b64_alphabet =
     map of_char ''ABCDEFGHIJKLMNOPQRSTUVWXYZabcdefghijklmnopqrstuvwxyz0123456789+/''"

definition b64_pad :: "16 word" where
  "b64_pad = 0x3D"

definition b64_char :: "nat \<Rightarrow> 16 word" where
  "b64_char n = b64_alphabet ! n"

definition b64_index :: "16 word \<Rightarrow> nat option" where
  "b64_index c = map_of (zip b64_alphabet [0..<64]) c"

text \<open>Three bytes become four 6-bit groups; a last group of one or two bytes is filled with zero bits.\<close>

fun sextets :: "nat list \<Rightarrow> nat list" where
  "sextets (a # b # c # rest) =
     [a div 4, (a mod 4) * 16 + b div 16, (b mod 16) * 4 + c div 64, c mod 64] @ sextets rest"
| "sextets [a, b] = [a div 4, (a mod 4) * 16 + b div 16, (b mod 16) * 4]"
| "sextets [a] = [a div 4, (a mod 4) * 16]"
| "sextets [] = []"

definition b64_padding :: "nat \<Rightarrow> jsstring" where
  "b64_padding n = replicate ((3 - n mod 3) mod 3) b64_pad"

definition btoa :: "jsstring \<Rightarrow> error + jsstring" where
  "btoa s =
     (if \<exists>c \<in> set s. 255 < c then Inl InvalidCharacterError
      else Inr (map b64_char (sextets (map unat s)) @ b64_padding (length s)))"

definition ascii_whitespace :: "16 word \<Rightarrow> bool" where
  "ascii_whitespace c \<longleftrightarrow> c = 0x09 \<or> c = 0x0A \<or> c = 0x0C \<or> c = 0x0D \<or> c = 0x20"

definition strip_padding :: "jsstring \<Rightarrow> jsstring" where
  "strip_padding d =
     (if length d mod 4 = 0 then
        (if 2 \<le> length d \<and> drop (length d - 2) d = [b64_pad, b64_pad]
           then take (length d - 2) d
         else if 1 \<le> length d \<and> last d = b64_pad then butlast d
         else d)
      else d)"

text \<open>Four 6-bit groups become three bytes; of a last group of two or three, the left-over bits are dropped.\<close>

fun octets :: "nat list \<Rightarrow> nat list" where
  "octets (p # q # r # s # rest) =
     [p * 4 + q div 16, (q mod 16) * 16 + r div 4, (r mod 4) * 64 + s] @ octets rest"
| "octets [p, q, r] = [p * 4 + q div 16, (q mod 16) * 16 + r div 4]"
| "octets [p, q] = [p * 4 + q div 16]"
| "octets [p] = []"
| "octets [] = []"

definition atob :: "jsstring \<Rightarrow> error + jsstring" where
  "atob s =
     (let d = strip_padding (filter (\<lambda>c. \<not> ascii_whitespace c) s) in
      if length d mod 4 = 1 then Inl InvalidCharacterError
      else (case those (map b64_index d) of
              None \<Rightarrow> Inl InvalidCharacterError
            | Some sx \<Rightarrow> Inr (map of_nat (octets sx))))"

subsection \<open>\<^verbatim>\<open>decode\<close> and \<^verbatim>\<open>encode\<close>\<close>

text \<open>
  \<^verbatim>\<open>decode\<close> stores \<^verbatim>\<open>charCodeAt(i)\<close> of the decoded string into a \<^verbatim>\<open>Uint8Array\<close>
  (a store keeps the low eight bits); \<^verbatim>\<open>encode\<close> appends \<^verbatim>\<open>String.fromCharCode\<close> of
  every byte and hands the string to \<^verbatim>\<open>btoa\<close>.
\<close>

definition decode :: "jsstring \<Rightarrow> error + byte list" where
  "decode base64 =
     (case atob base64 of
        Inl e \<Rightarrow> Inl e
      | Inr binaryString \<Rightarrow> Inr (map ucast binaryString))"

definition encode :: "byte list \<Rightarrow> error + jsstring" where
  "encode bytes = btoa (map ucast bytes)"

subsection \<open>Numbers of the host\<close>

text \<open>
  A JavaScript number that the audio paths handle: a finite value, or one of the three
  values that are not finite. Every 32-bit float is a rational, and the two operations
  applied to samples (a product with \<open>32768\<close>, a quotient by \<open>32768\<close> of a 16-bit
  integer) are exact in double precision, so finite values are rationals.
\<close>

datatype js_number = Num rat | NaN | PosInf | NegInf

definition times32768 :: "js_number \<Rightarrow> js_number" where
  "times32768 v = (case v of Num x \<Rightarrow> Num (x * 32768) | NaN \<Rightarrow> NaN
                   | PosInf \<Rightarrow> PosInf | NegInf \<Rightarrow> NegInf)"

definition js_truncate :: "rat \<Rightarrow> int" where
  "js_truncate x = (if 0 \<le> x then \<lfloor>x\<rfloor> else \<lceil>x\<rceil>)"

text \<open>
  The conversion of a store into an \<^verbatim>\<open>Int16Array\<close>: a value that is not finite
  becomes 0, a finite one is truncated towards zero and taken modulo \<open>2 ^ 16\<close>.
\<close>

definition ToInt16 :: "js_number \<Rightarrow> int16" where
  "ToInt16 v = (case v of Num x \<Rightarrow> word_of_int (js_truncate x) | NaN \<Rightarrow> 0
                | PosInf \<Rightarrow> 0 | NegInf \<Rightarrow> 0)"

subsection \<open>The capture callback \<^verbatim>\<open>onaudioprocess\<close>\<close>

text \<open>
  \<^verbatim>\<open>new Uint8Array(int16.buffer)\<close> reads the array's memory byte by byte; the low
  byte of every element comes first (the byte order of the hosts a browser runs on).
\<close>

definition int16_bytes :: "int16 \<Rightarrow> byte list" where
  "int16_bytes w = [ucast w, ucast (drop_bit 8 w)]"

definition buffer_bytes :: "int16 list \<Rightarrow> byte list" where
  "buffer_bytes ws = concat (map int16_bytes ws)"

definition pcm_int16 :: "js_number list \<Rightarrow> int16 list" where
  "pcm_int16 inputData = map (\<lambda>x. ToInt16 (times32768 x)) inputData"

definition pcm_bytes :: "js_number list \<Rightarrow> byte list" where
  "pcm_bytes inputData = buffer_bytes (pcm_int16 inputData)"

record blob =
  blob_data :: jsstring
  mimeType :: string

definition onaudioprocess :: "js_number list \<Rightarrow> error + blob" where
  "onaudioprocess inputData =
     (case encode (pcm_bytes inputData) of
        Inl e \<Rightarrow> Inl e
      | Inr text \<Rightarrow> Inr \<lparr>blob_data = text, mimeType = ''audio/pcm;rate=16000''\<rparr>)"

subsection \<open>\<^verbatim>\<open>decodeAudioData\<close>\<close>

record audio_buffer =
  sampleRate :: rat
  frames :: nat
  channelData :: "js_number list list"

definition duration :: "audio_buffer \<Rightarrow> rat" where
  "duration b = of_nat (frames b) / sampleRate b"

text \<open>
  Modelled from the spec: \<^verbatim>\<open>createBuffer\<close> is a method of the host's audio context.
  The spec's output device hands out buffers of a channel count, a length in frames and
  a rate; the host converts the length to an unsigned 32-bit integer (dropping a
  fraction), rejects a count, a length or a rate of zero with \<^verbatim>\<open>NotSupportedError\<close>,
  and returns channels filled with zeros. The host also rejects a rate or a channel count
  outside its supported range; those bounds differ between browsers and are left out, so
  the definition stands for the host only at arguments that every browser supports. The
  handler's arguments, one channel at 24000 Hz, are such, and the claims below use the
  definition at these arguments only.
\<close>

definition createBuffer :: "nat \<Rightarrow> rat \<Rightarrow> rat \<Rightarrow> error + audio_buffer" where
  "createBuffer numChannels frameCount rate =
     (let n = nat (js_truncate frameCount mod 2 ^ 32) in
      if numChannels = 0 \<or> n = 0 \<or> rate \<le> 0 then Inl NotSupportedError
      else Inr \<lparr>sampleRate = rate, frames = n,
                channelData = replicate numChannels (replicate n (Num 0))\<rparr>)"

text \<open>
  \<^verbatim>\<open>new Int16Array(data.buffer)\<close> raises \<^verbatim>\<open>RangeError\<close> on a buffer of odd length;
  otherwise every pair of bytes, low byte first, is one element.
\<close>

fun le_pairs :: "byte list \<Rightarrow> int16 list" where
  "le_pairs (lo # hi # rest) = (ucast lo OR push_bit 8 (ucast hi)) # le_pairs rest"
| "le_pairs [lo] = []"
| "le_pairs [] = []"

definition int16_view :: "byte list \<Rightarrow> error + int16 list" where
  "int16_view bytes = (if odd (length bytes) then Inl RangeError else Inr (le_pairs bytes))"

text \<open>A read past the end of the typed array is \<^verbatim>\<open>undefined\<close>, and its quotient is not a number.\<close>

definition sample_at :: "int16 list \<Rightarrow> nat \<Rightarrow> js_number" where
  "sample_at dataInt16 k =
     (if k < length dataInt16 then Num (of_int (sint (dataInt16 ! k)) / 32768) else NaN)"

text \<open>
  The inner loop runs over every index \<open>i\<close> below \<open>frameCount\<close>, which is a quotient and
  need not be whole; a store past the end of the channel is ignored, as list update is.
\<close>

definition fill_channel ::
  "int16 list \<Rightarrow> nat \<Rightarrow> rat \<Rightarrow> nat \<Rightarrow> js_number list \<Rightarrow> js_number list" where
  "fill_channel dataInt16 numChannels frameCount channel cd =
     fold (\<lambda>i cd'. cd'[i := sample_at dataInt16 (i * numChannels + channel)])
       (filter (\<lambda>i. of_nat i < frameCount) [0..<Suc (length dataInt16)]) cd"

definition decodeAudioData :: "byte list \<Rightarrow> rat \<Rightarrow> nat \<Rightarrow> error + audio_buffer" where
  "decodeAudioData bytes rate numChannels =
     (case int16_view bytes of
        Inl e \<Rightarrow> Inl e
      | Inr dataInt16 \<Rightarrow>
          (let frameCount = of_nat (length dataInt16) / of_nat numChannels in
           case createBuffer numChannels frameCount rate of
             Inl e \<Rightarrow> Inl e
           | Inr buffer \<Rightarrow>
               Inr (fold (\<lambda>channel b. b\<lparr>channelData := (channelData b)
                            [channel := fill_channel dataInt16 numChannels frameCount channel
                                          (channelData b ! channel)]\<rparr>)
                      [0..<numChannels] buffer)))"

subsection \<open>The playback cursor and the set of scheduled sources\<close>

text \<open>
  The state that \<^verbatim>\<open>onmessage\<close> reads and writes: \<^verbatim>\<open>nextStartTimeRef\<close>, the set
  \<^verbatim>\<open>sourcesRef\<close> (source nodes by number, in insertion order), and what the output
  device was told: every \<^verbatim>\<open>start(when)\<close> and every \<^verbatim>\<open>stop()\<close>, in call order.
\<close>

record playback =
  nextStartTime :: rat
  sources :: "nat list"
  started :: "(nat \<times> rat) list"
  stopped :: "nat list"
  nodes :: nat

definition set_add :: "nat \<Rightarrow> nat list \<Rightarrow> nat list" where
  "set_add x xs = (if x \<in> set xs then xs else xs @ [x])"

definition set_delete :: "nat \<Rightarrow> nat list \<Rightarrow> nat list" where
  "set_delete x xs = removeAll x xs"

text \<open>Lines 82 to 88: a new source is started at the cursor, which then moves past the buffer.\<close>

definition schedule :: "rat \<Rightarrow> audio_buffer \<Rightarrow> playback \<Rightarrow> playback" where
  "schedule currentTime buffer st =
     (let source = nodes st;
          startTime = max (nextStartTime st) currentTime
      in st\<lparr>nodes := Suc source,
            nextStartTime := startTime + duration buffer,
            started := started st @ [(source, startTime)],
            sources := set_add source (sources st)\<rparr>)"

text \<open>Lines 92 to 94.\<close>

definition interrupt :: "playback \<Rightarrow> playback" where
  "interrupt st =
     st\<lparr>stopped := stopped st @ sources st, sources := [], nextStartTime := 0\<rparr>"

text \<open>The \<^verbatim>\<open>onended\<close> callback of a source.\<close>

definition onended :: "nat \<Rightarrow> playback \<Rightarrow> playback" where
  "onended source st = st\<lparr>sources := set_delete source (sources st)\<rparr>"

text \<open>
  What the handler reads of a message: the result of the chain
  \<^verbatim>\<open>serverContent?.modelTurn?.parts[0]?.inlineData?.data\<close> (a model turn without
  \<^verbatim>\<open>parts\<close> makes the index raise \<^verbatim>\<open>TypeError\<close>), and the flag \<^verbatim>\<open>interrupted\<close>.
\<close>

datatype inline_data = PartsMissing | Undefined | Data jsstring

record message =
  inlineData :: inline_data
  interrupted :: bool

definition onmessage :: "rat \<Rightarrow> message \<Rightarrow> playback \<Rightarrow> error + playback" where
  "onmessage currentTime msg st =
     (case
        (case inlineData msg of
           PartsMissing \<Rightarrow> Inl TypeError
         | Undefined \<Rightarrow> Inr st
         | Data audioData \<Rightarrow>
             if audioData = [] then Inr st
             else (case decode audioData of
                     Inl e \<Rightarrow> Inl e
                   | Inr bytes \<Rightarrow>
                       (case decodeAudioData bytes 24000 1 of
                          Inl e \<Rightarrow> Inl e
                        | Inr buffer \<Rightarrow> Inr (schedule currentTime buffer st))))
      of
        Inl e \<Rightarrow> Inl e
      | Inr st' \<Rightarrow> Inr (if interrupted msg then interrupt st' else st'))"

text \<open>
  The state after a message: every exception of the handler is raised before its first
  write, so a handler that raises leaves the state as it was.
\<close>

definition deliver :: "rat \<Rightarrow> message \<Rightarrow> playback \<Rightarrow> playback" where
  "deliver currentTime msg st =
     (case onmessage currentTime msg st of Inl e \<Rightarrow> st | Inr st' \<Rightarrow> st')"

datatype event = Message rat message | Ended nat

fun step :: "event \<Rightarrow> playback \<Rightarrow> playback" where
  "step (Message currentTime msg) st = deliver currentTime msg st"
| "step (Ended source) st = onended source st"

fun run :: "event list \<Rightarrow> playback \<Rightarrow> playback" where
  "run [] st = st"
| "run (e # es) st = run es (step e st)"

subsection \<open>The component: \<^verbatim>\<open>startSession\<close>, \<^verbatim>\<open>stopSession\<close>, \<^verbatim>\<open>onerror\<close>, \<^verbatim>\<open>onclose\<close>\<close>

text \<open>
  The component's state and refs, and the resources of the host it has taken: audio
  contexts constructed, microphone streams obtained, sessions connected, the
  \<^verbatim>\<open>close()\<close> calls made on sessions and the errors written to the console.
\<close>

record component =
  isActive :: bool
  status :: string
  sessionRef :: "nat option"
  audioContextRef :: "nat option"
  audioContexts :: nat
  mediaStreams :: nat
  sessions :: nat
  closeCalls :: "nat list"
  logged :: nat

definition initial :: component where
  "initial = \<lparr>isActive = False, status = ''Idle'', sessionRef = None, audioContextRef = None,
              audioContexts = 0, mediaStreams = 0, sessions = 0, closeCalls = [], logged = 0\<rparr>"

text \<open>The steps of the \<^verbatim>\<open>try\<close> block of \<^verbatim>\<open>startSession\<close> that can raise or reject.\<close>

datatype try_step = NewClient | NewInputContext | NewOutputContext | GetUserMedia | Connect

definition catch_block :: "component \<Rightarrow> component" where
  "catch_block c = c\<lparr>logged := Suc (logged c), status := ''Permission Denied''\<rparr>"

definition onopen :: "component \<Rightarrow> component" where
  "onopen c = c\<lparr>status := ''Listening...''\<rparr>"

text \<open>
  \<^verbatim>\<open>startSession\<close>, given the step that fails (if any): the steps before it take
  effect, then the \<^verbatim>\<open>catch\<close> block runs.
\<close>

definition startSession :: "try_step option \<Rightarrow> component \<Rightarrow> component" where
  "startSession failing c =
     (if failing = Some NewClient then catch_block c
      else if failing = Some NewInputContext then catch_block c
      else
        let c1 = c\<lparr>audioContexts := Suc (audioContexts c)\<rparr> in
        if failing = Some NewOutputContext then catch_block c1
        else
          let outputCtx = audioContexts c1;
              c2 = c1\<lparr>audioContexts := Suc (audioContexts c1), audioContextRef := Some outputCtx\<rparr>
          in
          if failing = Some GetUserMedia then catch_block c2
          else
            let c3 = c2\<lparr>mediaStreams := Suc (mediaStreams c2)\<rparr> in
            if failing = Some Connect then catch_block c3
            else
              let session = sessions c3;
                  c4 = onopen (c3\<lparr>sessions := Suc (sessions c3)\<rparr>)
              in c4\<lparr>sessionRef := Some session, isActive := True\<rparr>)"


definition onerror :: "component \<Rightarrow> component" where
  "onerror c = c\<lparr>logged := Suc (logged c), status := ''Error''\<rparr>"

definition onclose :: "component \<Rightarrow> component" where
  "onclose c = c\<lparr>isActive := False, status := ''Idle''\<rparr>"

subsection \<open>Notions used to state the properties\<close>

text \<open>The buffer that \<^verbatim>\<open>onmessage\<close> decodes from a message, when it decodes one.\<close>

definition inbound_buffer :: "message \<Rightarrow> audio_buffer option" where
  "inbound_buffer msg =
     (case inlineData msg of
        PartsMissing \<Rightarrow> None
      | Undefined \<Rightarrow> None
      | Data audioData \<Rightarrow>
          if audioData = [] then None
          else (case decode audioData of
                  Inl e \<Rightarrow> None
                | Inr bytes \<Rightarrow>
                    (case decodeAudioData bytes 24000 1 of
                       Inl e \<Rightarrow> None
                     | Inr buffer \<Rightarrow> Some buffer)))"

fun is_interruption :: "event \<Rightarrow> bool" where
  "is_interruption (Message currentTime msg) = interrupted msg"
| "is_interruption (Ended source) = False"

section \<open>Properties\<close>

subsection \<open>The base64 transport text\<close>

lemma b64_alphabet_length: "length b64_alphabet = 64"
  by (simp add: b64_alphabet_def)

lemma b64_alphabet_distinct: "distinct b64_alphabet"
  by (simp add: b64_alphabet_def)

lemma b64_index_char: "n < 64 \<Longrightarrow> b64_index (b64_char n) = Some n"
  unfolding b64_index_def b64_char_def
  using map_of_zip_nth [of b64_alphabet "[0..<64]" n]
  by (simp add: b64_alphabet_length b64_alphabet_distinct)

lemma b64_alphabet_plain: "c \<in> set b64_alphabet \<Longrightarrow> \<not> ascii_whitespace c \<and> c \<noteq> b64_pad"
  by (auto simp add: b64_alphabet_def ascii_whitespace_def b64_pad_def)

lemma b64_char_plain: "n < 64 \<Longrightarrow> \<not> ascii_whitespace (b64_char n) \<and> b64_char n \<noteq> b64_pad"
  by (rule b64_alphabet_plain) (simp add: b64_char_def b64_alphabet_length)

lemma b64_pad_plain: "\<not> ascii_whitespace b64_pad"
  by (simp add: ascii_whitespace_def b64_pad_def)

lemma sextets_bound: "\<forall>a \<in> set bs. a < 256 \<Longrightarrow> \<forall>x \<in> set (sextets bs). x < 64"
proof (induction bs rule: sextets.induct)
  case (1 a b c rest)
  then show ?case by (auto simp: less_mult_imp_div_less)
next
  case (2 a b)
  then show ?case by auto
next
  case (3 a)
  then show ?case by auto
next
  case 4
  then show ?case by simp
qed

lemma regroup_first: "(a div 4) * 4 + ((a mod 4) * 16 + b div 16) div 16 = (a::nat)" if "b < 256"
proof -
  from that have "b div 16 < 16" by simp
  then have "((a mod 4) * 16 + b div 16) div 16 = a mod 4" by simp
  then show ?thesis by simp
qed

lemma regroup_second:
  "(((a mod 4) * 16 + b div 16) mod 16) * 16 + ((b mod 16) * 4 + c div 64) div 4 = (b::nat)"
  if "b < 256" "c < 256"
proof -
  from that have "b div 16 < 16" by simp
  then have l: "((a mod 4) * 16 + b div 16) mod 16 = b div 16" by simp
  from that have "c div 64 < 4" by simp
  then have r: "((b mod 16) * 4 + c div 64) div 4 = b mod 16" by simp
  show ?thesis unfolding l r by simp
qed

lemma regroup_third: "(((b mod 16) * 4 + c div 64) mod 4) * 64 + c mod 64 = (c::nat)" if "c < 256"
proof -
  from that have "c div 64 < 4" by simp
  then have "((b mod 16) * 4 + c div 64) mod 4 = c div 64" by simp
  then show ?thesis by simp
qed

lemma octets_sextets: "\<forall>a \<in> set bs. a < 256 \<Longrightarrow> octets (sextets bs) = bs"
proof (induction bs rule: sextets.induct)
  case (1 a b c rest)
  then have bnd: "b < 256" "c < 256" and ih: "octets (sextets rest) = rest"
    by simp_all
  have "octets (sextets (a # b # c # rest)) =
          [(a div 4) * 4 + ((a mod 4) * 16 + b div 16) div 16,
           (((a mod 4) * 16 + b div 16) mod 16) * 16 + ((b mod 16) * 4 + c div 64) div 4,
           (((b mod 16) * 4 + c div 64) mod 4) * 64 + c mod 64] @ octets (sextets rest)"
    by (simp only: sextets.simps octets.simps append_Cons append_Nil)
  also have "\<dots> = a # b # c # rest"
    by (simp only: regroup_first [OF bnd(1)] regroup_second [OF bnd] regroup_third [OF bnd(2)]
        ih append_Cons append_Nil)
  finally show ?case .
next
  case (2 a b)
  then have bnd: "b < 256" by simp
  have "octets (sextets [a, b]) =
          [(a div 4) * 4 + ((a mod 4) * 16 + b div 16) div 16,
           (((a mod 4) * 16 + b div 16) mod 16) * 16 + ((b mod 16) * 4) div 4]"
    by (simp only: sextets.simps octets.simps)
  also have "\<dots> = [a, b]"
    using regroup_first [OF bnd, of a] regroup_second [OF bnd, of 0 a] by simp
  finally show ?case .
next
  case (3 a)
  have "octets (sextets [a]) = [(a div 4) * 4 + ((a mod 4) * 16) div 16]"
    by (simp only: sextets.simps octets.simps)
  also have "\<dots> = [a]" by simp
  finally show ?case .
next
  case 4
  then show ?case by simp
qed

lemma length_sextets:
  "length (sextets bs) = 4 * (length bs div 3) + (if length bs mod 3 = 0 then 0 else length bs mod 3 + 1)"
  by (induction bs rule: sextets.induct) auto

lemma those_index_char:
  "\<forall>x \<in> set sx. x < 64 \<Longrightarrow> those (map b64_index (map b64_char sx)) = Some sx"
  by (induction sx) (simp_all add: b64_index_char)


lemma strip_padding_plain: "\<forall>c \<in> set xs. c \<noteq> b64_pad \<Longrightarrow> strip_padding xs = xs"
proof -
  assume plain: "\<forall>c \<in> set xs. c \<noteq> b64_pad"
  have two: "drop (length xs - 2) xs \<noteq> [b64_pad, b64_pad]" if "2 \<le> length xs"
  proof
    assume eq: "drop (length xs - 2) xs = [b64_pad, b64_pad]"
    have "set (drop (length xs - 2) xs) \<subseteq> set xs" by (rule set_drop_subset)
    with eq have "b64_pad \<in> set xs" by simp
    with plain show False by blast
  qed
  have one: "last xs \<noteq> b64_pad" if "1 \<le> length xs"
  proof -
    from that have "xs \<noteq> []" by auto
    then have "last xs \<in> set xs" by simp
    with plain show ?thesis by blast
  qed
  show ?thesis unfolding strip_padding_def using two one by auto
qed

lemma strip_padding_two:
  "length xs mod 4 = 2 \<Longrightarrow> strip_padding (xs @ [b64_pad, b64_pad]) = xs"
  unfolding strip_padding_def by (simp add: mod_Suc)

lemma strip_padding_one:
  assumes len: "length xs mod 4 = 3" and plain: "\<forall>c \<in> set xs. c \<noteq> b64_pad"
  shows "strip_padding (xs @ [b64_pad]) = xs"
proof -
  from len have ne: "xs \<noteq> []" by auto
  then have "last xs \<in> set xs" by simp
  with plain have l: "last xs \<noteq> b64_pad" by blast
  from ne have "drop (length xs - Suc 0) xs = [last xs]"
    by (cases xs rule: rev_cases) simp_all
  then have "drop (length (xs @ [b64_pad]) - 2) (xs @ [b64_pad]) = [last xs, b64_pad]"
    using ne by (simp add: Suc_leI)
  with l have d: "drop (length (xs @ [b64_pad]) - 2) (xs @ [b64_pad]) \<noteq> [b64_pad, b64_pad]"
    by simp
  from len have m: "length (xs @ [b64_pad]) mod 4 = 0" by (simp add: mod_Suc)
  show ?thesis unfolding strip_padding_def using d m by simp
qed

lemma strip_padding_btoa:
  assumes "\<forall>a \<in> set bs. a < 256"
  shows "strip_padding (map b64_char (sextets bs) @ b64_padding (length bs)) =
           map b64_char (sextets bs)"
proof -
  let ?xs = "map b64_char (sextets bs)"
  have plain: "\<forall>c \<in> set ?xs. c \<noteq> b64_pad"
    using sextets_bound [OF assms] b64_char_plain by auto
  have "length bs mod 3 = 0 \<or> length bs mod 3 = 1 \<or> length bs mod 3 = 2" by arith
  then show ?thesis
  proof (elim disjE)
    assume m: "length bs mod 3 = 0"
    then have "b64_padding (length bs) = []" by (simp add: b64_padding_def)
    then show ?thesis using strip_padding_plain [OF plain] by simp
  next
    assume m: "length bs mod 3 = 1"
    then have p: "b64_padding (length bs) = [b64_pad, b64_pad]"
      by (simp add: b64_padding_def numeral_2_eq_2)
    have "(4 * (length bs div 3) + 2) mod 4 = 2" by presburger
    with m have "length ?xs mod 4 = 2" by (simp add: length_sextets)
    then show ?thesis unfolding p by (rule strip_padding_two)
  next
    assume m: "length bs mod 3 = 2"
    then have p: "b64_padding (length bs) = [b64_pad]"
      by (simp add: b64_padding_def)
    have "(4 * (length bs div 3) + 3) mod 4 = 3" by presburger
    with m have "length ?xs mod 4 = 3" by (simp add: length_sextets)
    then show ?thesis unfolding p using plain by (rule strip_padding_one)
  qed
qed

lemma length_sextets_mod: "length (sextets bs) mod 4 \<noteq> 1"
proof -
  have "length bs mod 3 = 0 \<or> length bs mod 3 = 1 \<or> length bs mod 3 = 2" by arith
  then show ?thesis by (auto simp add: length_sextets)
qed

lemma filter_btoa:
  assumes "\<forall>a \<in> set bs. a < 256"
  shows "filter (\<lambda>c. \<not> ascii_whitespace c) (map b64_char (sextets bs) @ b64_padding n) =
           map b64_char (sextets bs) @ b64_padding n"
proof -
  have "\<forall>c \<in> set (map b64_char (sextets bs) @ b64_padding n). \<not> ascii_whitespace c"
    using sextets_bound [OF assms] b64_char_plain b64_pad_plain
    by (auto simp add: b64_padding_def)
  then show ?thesis by (simp only: filter_True)
qed

lemma atob_btoa:
  assumes "\<forall>a \<in> set bs. a < 256"
  shows "atob (map b64_char (sextets bs) @ b64_padding (length bs)) = Inr (map of_nat bs)"
  unfolding atob_def
  by (simp only: filter_btoa [OF assms] strip_padding_btoa [OF assms] Let_def length_map
      length_sextets_mod if_False those_index_char [OF sextets_bound [OF assms]]
      option.case octets_sextets [OF assms])

lemma unat_byte: "unat (b :: byte) < 256"
  using unsigned_less [of b, where 'a = nat] by simp

lemma unat_byte_code: "unat (ucast (b :: byte) :: 16 word) = unat b"
proof -
  have "unat b < 2 ^ 16" using unat_byte [of b] by simp
  then show ?thesis by (simp add: unsigned_ucast_eq take_bit_nat_eq_self)
qed

lemma byte_code_small: "\<not> 255 < (ucast (b :: byte) :: 16 word)"
proof -
  have "unat (ucast b :: 16 word) < 256" using unat_byte [of b] by (simp add: unat_byte_code)
  then show ?thesis by (simp add: word_less_nat_alt)
qed

lemma byte_code_byte: "ucast (of_nat (unat (b :: byte)) :: 16 word) = b"
  by (simp add: ucast_up_ucast_id is_up)

lemma encode_value:
  "encode bytes = Inr (map b64_char (sextets (map unat bytes)) @ b64_padding (length bytes))"
  unfolding encode_def btoa_def
  by (simp add: byte_code_small unat_byte_code comp_def)

text \<open>
  C4: for every byte sequence \<open>b\<close>, \<^verbatim>\<open>encode\<close> returns a text and \<^verbatim>\<open>decode\<close> of that
  text returns \<open>b\<close>: the base64 transport encoding followed by decoding is the identity.
\<close>

theorem decode_encode: "\<exists>t. encode b = Inr t \<and> decode t = Inr b"
proof -
  have bnd: "\<forall>a \<in> set (map unat b). a < 256"
    using unat_byte by auto
  have "map ucast (map of_nat (map unat b) :: jsstring) = b"
    by (simp add: comp_def byte_code_byte del: of_nat_unat)
  moreover have "atob (map b64_char (sextets (map unat b)) @ b64_padding (length b)) =
      Inr (map of_nat (map unat b))"
    using atob_btoa [OF bnd] by (simp only: length_map)
  ultimately have "decode (map b64_char (sextets (map unat b)) @ b64_padding (length b)) = Inr b"
    unfolding decode_def by (simp only: sum.case)
  then show ?thesis using encode_value by blast
qed

theorem decode_encode_witness:
  "encode [0, 128, 255] = Inr [65, 73, 68, 47] \<and> decode [65, 73, 68, 47] = Inr [0, 128, 255]"
proof -
  have e: "encode [0, 128, 255] = Inr [65, 73, 68, 47]" by code_simp
  from decode_encode [of "[0, 128, 255]"] obtain t
    where "encode [0, 128, 255] = Inr t" and "decode t = Inr [0, 128, 255]" by blast
  with e show ?thesis by simp
qed

subsection \<open>The outbound encoder\<close>

lemma length_buffer_bytes: "length (buffer_bytes ws) = 2 * length ws"
  by (induction ws) (simp_all add: buffer_bytes_def int16_bytes_def)

lemma buffer_bytes_low: "i < length ws \<Longrightarrow> buffer_bytes ws ! (2 * i) = ucast (ws ! i)"
proof (induction ws arbitrary: i)
  case Nil
  then show ?case by simp
next
  case (Cons w ws)
  show ?case
  proof (cases i)
    case 0
    then show ?thesis by (simp add: buffer_bytes_def int16_bytes_def)
  next
    case (Suc j)
    with Cons show ?thesis by (simp add: buffer_bytes_def int16_bytes_def)
  qed
qed

lemma buffer_bytes_high:
  "i < length ws \<Longrightarrow> buffer_bytes ws ! (2 * i + 1) = ucast (drop_bit 8 (ws ! i))"
proof (induction ws arbitrary: i)
  case Nil
  then show ?case by simp
next
  case (Cons w ws)
  show ?case
  proof (cases i)
    case 0
    then show ?thesis by (simp add: buffer_bytes_def int16_bytes_def)
  next
    case (Suc j)
    with Cons show ?thesis by (simp add: buffer_bytes_def int16_bytes_def)
  qed
qed

lemma sint_int16: "sint (word_of_int t :: int16) = (t + 32768) mod 65536 - 32768"
  by (simp add: sint_sbintrunc' signed_take_bit_eq_take_bit_shift take_bit_eq_mod)

lemma shift_low: "(t + 65536 * k) mod 256 = (t::int) mod 256"
proof -
  have "t + 65536 * k = t + 256 * (256 * k)" by simp
  then show ?thesis by (simp only: mod_mult_self2)
qed

lemma shift_high: "(t + 65536 * k) div 256 mod 256 = (t::int) div 256 mod 256"
proof -
  have "t + 65536 * k = t + 256 * (256 * k)" by simp
  then have "(t + 65536 * k) div 256 = t div 256 + 256 * k" by simp
  then show ?thesis by (simp only: mod_mult_self2)
qed

lemma mod_as_shift: "(t::int) mod 65536 = t + 65536 * (- (t div 65536))"
  using minus_mult_div_eq_mod [of t 65536] by simp

lemma wrap_as_shift:
  "((t::int) + 32768) mod 65536 - 32768 = t + 65536 * (- ((t + 32768) div 65536))"
  using minus_mult_div_eq_mod [of "t + 32768" 65536] by simp

lemma uint_int16: "uint (word_of_int t :: int16) = t mod 65536"
  by (simp add: uint_word_of_int)

lemma low_byte:
  "unat (ucast (word_of_int t :: int16) :: byte) = nat (((t + 32768) mod 65536 - 32768) mod 256)"
proof -
  have "uint (ucast (word_of_int t :: int16) :: byte) = (t mod 65536) mod 256"
    by (simp add: unsigned_ucast_eq take_bit_eq_mod uint_int16)
  also have "\<dots> = t mod 256"
    by (simp only: mod_as_shift [of t] shift_low)
  also have "\<dots> = ((t + 32768) mod 65536 - 32768) mod 256"
    by (simp only: wrap_as_shift [of t] shift_low)
  finally show ?thesis by (simp only: unat_eq_nat_uint)
qed

lemma high_byte:
  "unat (ucast (drop_bit 8 (word_of_int t :: int16)) :: byte) =
     nat (((t + 32768) mod 65536 - 32768) div 256 mod 256)"
proof -
  have "uint (drop_bit 8 (word_of_int t :: int16)) = (t mod 65536) div 256"
    by (simp add: drop_bit_eq_div uint_div uint_int16)
  then have "uint (ucast (drop_bit 8 (word_of_int t :: int16)) :: byte) =
      ((t mod 65536) div 256) mod 256"
    by (simp only: unsigned_ucast_eq take_bit_eq_mod) simp
  also have "\<dots> = t div 256 mod 256"
    by (simp only: mod_as_shift [of t] shift_high)
  also have "\<dots> = ((t + 32768) mod 65536 - 32768) div 256 mod 256"
    by (simp only: wrap_as_shift [of t] shift_high)
  finally show ?thesis by (simp only: unat_eq_nat_uint)
qed

lemma js_truncate_unit:
  assumes "- 1 \<le> r" and "r < 1"
  shows "- 32768 \<le> js_truncate (r * 32768) \<and> js_truncate (r * 32768) < 32768"
proof (cases "0 \<le> r")
  case True
  then have "js_truncate (r * 32768) = \<lfloor>r * 32768\<rfloor>" by (simp add: js_truncate_def)
  moreover have "0 \<le> \<lfloor>r * 32768\<rfloor>" using True by simp
  moreover have "\<lfloor>r * 32768\<rfloor> < 32768" using assms(2) by (simp add: floor_less_iff)
  ultimately show ?thesis by simp
next
  case False
  then have "js_truncate (r * 32768) = \<lceil>r * 32768\<rceil>"
    by (simp add: js_truncate_def mult_less_0_iff)
  moreover have "\<lceil>r * 32768\<rceil> \<le> 0" using False by (simp add: ceiling_le_iff mult_le_0_iff)
  moreover have "- 32768 \<le> \<lceil>r * 32768\<rceil>" using assms(1) by (simp add: le_ceiling_iff)
  ultimately show ?thesis by simp
qed

text \<open>
  C5: for samples in \<open>[-1, 1]\<close> the capture encoder returns two bytes per sample. The
  16-bit value of a sample \<open>r\<close> is \<open>r * 32768\<close> truncated towards zero and wrapped into the
  signed 16-bit range (no wrap happens below \<open>r = 1\<close>), and its two bytes are the low and
  the high byte of that value in two's complement, low byte first.
\<close>

theorem pcm_bytes_layout:
  assumes unit: "\<forall>x \<in> set samples. \<exists>r. x = Num r \<and> - 1 \<le> r \<and> r \<le> 1"
  shows "length (pcm_bytes samples) = 2 * length samples \<and>
         (\<forall>i < length samples. \<exists>r v.
            samples ! i = Num r \<and>
            v = (js_truncate (r * 32768) + 32768) mod 65536 - 32768 \<and>
            (r < 1 \<longrightarrow> v = js_truncate (r * 32768)) \<and>
            sint (pcm_int16 samples ! i) = v \<and>
            unat (pcm_bytes samples ! (2 * i)) = nat (v mod 256) \<and>
            unat (pcm_bytes samples ! (2 * i + 1)) = nat (v div 256 mod 256))"
proof (intro conjI allI impI)
  show "length (pcm_bytes samples) = 2 * length samples"
    by (simp add: pcm_bytes_def pcm_int16_def length_buffer_bytes)
next
  fix i assume i: "i < length samples"
  with unit obtain r where r: "samples ! i = Num r" "- 1 \<le> r" "r \<le> 1"
    using nth_mem by blast
  define t where "t = js_truncate (r * 32768)"
  define v where "v = (t + 32768) mod 65536 - 32768"
  have w: "pcm_int16 samples ! i = word_of_int t"
    using i r(1) by (simp add: pcm_int16_def ToInt16_def times32768_def t_def)
  have nowrap: "v = t" if "r < 1"
  proof -
    from js_truncate_unit [OF r(2) that] have "- 32768 \<le> t" "t < 32768" by (simp_all add: t_def)
    then show ?thesis unfolding v_def by simp
  qed
  have li: "i < length (pcm_int16 samples)" using i by (simp add: pcm_int16_def)
  have "sint (pcm_int16 samples ! i) = v"
    unfolding w v_def by (rule sint_int16)
  moreover have "unat (pcm_bytes samples ! (2 * i)) = nat (v mod 256)"
    unfolding pcm_bytes_def buffer_bytes_low [OF li] w v_def by (rule low_byte)
  moreover have "unat (pcm_bytes samples ! (2 * i + 1)) = nat (v div 256 mod 256)"
    unfolding pcm_bytes_def buffer_bytes_high [OF li] w v_def by (rule high_byte)
  ultimately show "\<exists>r v.
            samples ! i = Num r \<and>
            v = (js_truncate (r * 32768) + 32768) mod 65536 - 32768 \<and>
            (r < 1 \<longrightarrow> v = js_truncate (r * 32768)) \<and>
            sint (pcm_int16 samples ! i) = v \<and>
            unat (pcm_bytes samples ! (2 * i)) = nat (v mod 256) \<and>
            unat (pcm_bytes samples ! (2 * i + 1)) = nat (v div 256 mod 256)"
    using r(1) nowrap unfolding v_def t_def by blast
qed

theorem pcm_bytes_layout_witness:
  "length (pcm_bytes [Num (1 / 2), Num 1]) = 4 \<and>
   sint (pcm_int16 [Num (1 / 2), Num 1] ! 0) = 16384 \<and>
   unat (pcm_bytes [Num (1 / 2), Num 1] ! 0) = 0 \<and>
   unat (pcm_bytes [Num (1 / 2), Num 1] ! 1) = 64"
proof -
  let ?s = "[Num (1 / 2), Num 1]"
  have a: "\<exists>r. Num (1 / 2) = Num r \<and> - 1 \<le> r \<and> r \<le> 1"
    by (rule exI [of _ "1 / 2"]) simp
  have b: "\<exists>r. Num 1 = Num r \<and> - 1 \<le> r \<and> r \<le> 1"
    by (rule exI [of _ 1]) simp
  have h: "\<forall>x \<in> set ?s. \<exists>r. x = Num r \<and> - 1 \<le> r \<and> r \<le> 1"
    by (simp only: list.set ball_simps) (use a b in blast)
  note l = pcm_bytes_layout [OF h]
  from l have len: "length (pcm_bytes ?s) = 4" by simp
  from l [THEN conjunct2, rule_format, of 0] obtain r v where
    r: "?s ! 0 = Num r" and v: "v = (js_truncate (r * 32768) + 32768) mod 65536 - 32768"
    and s: "sint (pcm_int16 ?s ! 0) = v"
    and lo: "unat (pcm_bytes ?s ! (2 * 0)) = nat (v mod 256)"
    and hi: "unat (pcm_bytes ?s ! (2 * 0 + 1)) = nat (v div 256 mod 256)"
    by auto
  from r have "r = 1 / 2" by simp
  with v have "v = 16384" by (simp add: js_truncate_def)
  with len s lo hi show ?thesis by simp
qed

text \<open>
  C10: a sample of exactly \<open>1\<close> scales to \<open>32768\<close>, and the store into the 16-bit array
  wraps it to \<open>-32768\<close>, the bytes \<open>00 80\<close>; it is not clamped to \<open>32767\<close>.
\<close>

theorem full_scale_wraps:
  "sint (ToInt16 (times32768 (Num 1))) = - 32768 \<and>
   pcm_int16 [Num 1] = [0x8000] \<and> pcm_bytes [Num 1] = [0x00, 0x80]"
  by (simp add: ToInt16_def times32768_def js_truncate_def pcm_int16_def pcm_bytes_def
      buffer_bytes_def int16_bytes_def)

subsection \<open>The inbound decoder and the playback scheduler\<close>

lemma length_le_pairs: "length (le_pairs bytes) = length bytes div 2"
  by (induction bytes rule: le_pairs.induct) simp_all

lemma fold_channels_shape:
  "sampleRate (fold (\<lambda>channel b. b\<lparr>channelData := g channel b\<rparr>) chans buffer) = sampleRate buffer \<and>
   frames (fold (\<lambda>channel b. b\<lparr>channelData := g channel b\<rparr>) chans buffer) = frames buffer"
  by (induction chans arbitrary: buffer) simp_all

lemma decodeAudioData_odd:
  "odd (length bytes) \<Longrightarrow> decodeAudioData bytes rate numChannels = Inl RangeError"
  by (simp add: decodeAudioData_def int16_view_def)

lemma decodeAudioData_shape:
  assumes "decodeAudioData bytes rate numChannels = Inr buffer"
  shows "sampleRate buffer = rate \<and> 0 < rate \<and> even (length bytes) \<and> 0 < numChannels \<and>
         frames buffer = nat (js_truncate (of_nat (length bytes div 2) / of_nat numChannels) mod 2 ^ 32)"
proof -
  from assms have ev: "even (length bytes)"
    by (auto simp add: decodeAudioData_def int16_view_def split: if_splits)
  let ?fc = "of_nat (length (le_pairs bytes)) / of_nat numChannels :: rat"
  from assms ev obtain b0 where cb: "createBuffer numChannels ?fc rate = Inr b0"
    and res: "buffer = fold (\<lambda>channel b. b\<lparr>channelData := (channelData b)
                            [channel := fill_channel (le_pairs bytes) numChannels ?fc channel
                                          (channelData b ! channel)]\<rparr>) [0..<numChannels] b0"
    by (auto simp add: decodeAudioData_def int16_view_def Let_def split: sum.splits)
  from cb have b0: "sampleRate b0 = rate" "0 < rate" "0 < numChannels"
    "frames b0 = nat (js_truncate ?fc mod 2 ^ 32)"
    by (auto simp add: createBuffer_def Let_def split: if_splits)
  from res have "sampleRate buffer = sampleRate b0" "frames buffer = frames b0"
    using fold_channels_shape [of _ "[0..<numChannels]" b0] by simp_all
  with b0 ev show ?thesis by (simp add: length_le_pairs)
qed

lemma inbound_buffer_duration: "inbound_buffer m = Some b \<Longrightarrow> 0 \<le> duration b"
proof -
  assume "inbound_buffer m = Some b"
  then obtain bytes where "decodeAudioData bytes 24000 1 = Inr b"
    by (auto simp add: inbound_buffer_def split: inline_data.splits if_splits sum.splits)
  from decodeAudioData_shape [OF this] show ?thesis by (simp add: duration_def)
qed

lemma onmessage_buffer:
  "inbound_buffer m = Some b \<Longrightarrow>
     onmessage t m st = Inr (if interrupted m then interrupt (schedule t b st) else schedule t b st)"
  by (auto simp add: inbound_buffer_def onmessage_def split: inline_data.splits if_splits sum.splits)

lemma onmessage_no_buffer:
  "inbound_buffer m = None \<Longrightarrow>
     (\<exists>e. onmessage t m st = Inl e) \<or>
     onmessage t m st = Inr (if interrupted m then interrupt st else st)"
  by (auto simp add: inbound_buffer_def onmessage_def split: inline_data.splits if_splits sum.splits)


lemma deliver_buffer:
  "inbound_buffer m = Some b \<Longrightarrow>
     deliver t m st = (if interrupted m then interrupt (schedule t b st) else schedule t b st)"
  by (simp add: deliver_def onmessage_buffer)

lemma deliver_no_buffer:
  "inbound_buffer m = None \<Longrightarrow>
     deliver t m st = st \<or> interrupted m \<and> deliver t m st = interrupt st"
  using onmessage_no_buffer [of m t st] by (auto simp add: deliver_def split: if_splits)

lemma started_schedule:
  "started (schedule t b st) = started st @ [(nodes st, max (nextStartTime st) t)]"
  by (simp add: schedule_def Let_def)

lemma nextStartTime_schedule:
  "nextStartTime (schedule t b st) = max (nextStartTime st) t + duration b"
  by (simp add: schedule_def Let_def)

lemma nodes_schedule: "nodes (schedule t b st) = Suc (nodes st)"
  by (simp add: schedule_def Let_def)

lemma started_interrupt: "started (interrupt st) = started st"
  by (simp add: interrupt_def)

lemma nodes_interrupt: "nodes (interrupt st) = nodes st"
  by (simp add: interrupt_def)

lemma started_deliver_buffer:
  "inbound_buffer m = Some b \<Longrightarrow>
     started (deliver t m st) = started st @ [(nodes st, max (nextStartTime st) t)]"
  by (simp add: deliver_buffer started_schedule started_interrupt)

text \<open>
  C1: a chunk that decodes to a buffer is started at the maximum of the cursor and the
  device's clock, never before the clock, and the cursor then stands at that start plus
  the buffer's duration. Three chunks, each delivered no later than the cursor stands
  (faster than real time), start back to back: the second at the first start plus the
  first duration, the third at the second start plus the second duration.
\<close>

theorem playback_gapless:
  "(inbound_buffer m1 = Some b1 \<longrightarrow>
      started (deliver t1 m1 st) = started st @ [(nodes st, max (nextStartTime st) t1)] \<and>
      t1 \<le> max (nextStartTime st) t1 \<and>
      (\<not> interrupted m1 \<longrightarrow>
         nextStartTime (deliver t1 m1 st) = max (nextStartTime st) t1 + duration b1)) \<and>
   (inbound_buffer m1 = Some b1 \<and> inbound_buffer m2 = Some b2 \<and> inbound_buffer m3 = Some b3 \<and>
    \<not> interrupted m1 \<and> \<not> interrupted m2 \<and>
    t2 \<le> max (nextStartTime st) t1 + duration b1 \<and>
    t3 \<le> max (nextStartTime st) t1 + duration b1 + duration b2 \<longrightarrow>
      started (deliver t3 m3 (deliver t2 m2 (deliver t1 m1 st))) =
        started st @
          [(nodes st, max (nextStartTime st) t1),
           (Suc (nodes st), max (nextStartTime st) t1 + duration b1),
           (Suc (Suc (nodes st)), max (nextStartTime st) t1 + duration b1 + duration b2)])"
proof (intro conjI impI)
  assume "inbound_buffer m1 = Some b1"
  then show "started (deliver t1 m1 st) = started st @ [(nodes st, max (nextStartTime st) t1)]"
    by (rule started_deliver_buffer)
next
  show "t1 \<le> max (nextStartTime st) t1" by simp
next
  assume "inbound_buffer m1 = Some b1" and "\<not> interrupted m1"
  then show "nextStartTime (deliver t1 m1 st) = max (nextStartTime st) t1 + duration b1"
    by (simp add: deliver_buffer nextStartTime_schedule)
next
  let ?x1 = "max (nextStartTime st) t1"
  assume a: "inbound_buffer m1 = Some b1 \<and> inbound_buffer m2 = Some b2 \<and>
    inbound_buffer m3 = Some b3 \<and> \<not> interrupted m1 \<and> \<not> interrupted m2 \<and>
    t2 \<le> ?x1 + duration b1 \<and> t3 \<le> ?x1 + duration b1 + duration b2"
  define s1 where "s1 = deliver t1 m1 st"
  define s2 where "s2 = deliver t2 m2 s1"
  from a have s1: "s1 = schedule t1 b1 st" by (simp add: s1_def deliver_buffer)
  from a have s2: "s2 = schedule t2 b2 s1" by (simp add: s2_def deliver_buffer)
  have n1: "nextStartTime s1 = ?x1 + duration b1" unfolding s1 by (rule nextStartTime_schedule)
  with a have x2: "max (nextStartTime s1) t2 = ?x1 + duration b1" by simp
  then have n2: "nextStartTime s2 = ?x1 + duration b1 + duration b2"
    unfolding s2 by (simp add: nextStartTime_schedule)
  with a have x3: "max (nextStartTime s2) t3 = ?x1 + duration b1 + duration b2" by simp
  have k1: "nodes s1 = Suc (nodes st)" unfolding s1 by (rule nodes_schedule)
  have k2: "nodes s2 = Suc (Suc (nodes st))" unfolding s2 by (simp add: nodes_schedule k1)
  have l1: "started s1 = started st @ [(nodes st, ?x1)]"
    unfolding s1 by (rule started_schedule)
  have l2: "started s2 = started s1 @ [(nodes s1, max (nextStartTime s1) t2)]"
    unfolding s2 by (rule started_schedule)
  from a have "started (deliver t3 m3 s2) = started s2 @ [(nodes s2, max (nextStartTime s2) t3)]"
    by (simp add: started_deliver_buffer)
  then have "started (deliver t3 m3 s2) =
        started st @ [(nodes st, ?x1), (Suc (nodes st), ?x1 + duration b1),
           (Suc (Suc (nodes st)), ?x1 + duration b1 + duration b2)]"
    by (simp only: l2 l1 k1 k2 x2 x3 append_assoc append_Cons append_Nil)
  then show "started (deliver t3 m3 (deliver t2 m2 (deliver t1 m1 st))) =
        started st @ [(nodes st, ?x1), (Suc (nodes st), ?x1 + duration b1),
           (Suc (Suc (nodes st)), ?x1 + duration b1 + duration b2)]"
    unfolding s2_def s1_def .
qed

lemma sources_schedule: "set (sources st) \<subseteq> set (sources (schedule t b st))"
  by (auto simp add: schedule_def Let_def set_add_def)

text \<open>
  C2: when a message carries the interruption flag and the handler returns, every source
  that was in the set has been stopped, the set is empty and the cursor is 0; a chunk
  delivered afterwards at device time \<open>t2\<close> starts at \<open>max 0 t2\<close>.
\<close>

theorem interruption_clears:
  assumes int: "interrupted m" and ok: "onmessage t m st = Inr st'"
  shows "sources st' = [] \<and> nextStartTime st' = 0 \<and>
         stopped st' =
           stopped st @ sources (case inbound_buffer m of None \<Rightarrow> st | Some b \<Rightarrow> schedule t b st) \<and>
         set (sources st) \<subseteq> set (stopped st') \<and>
         (\<forall>m2 b2 t2. inbound_buffer m2 = Some b2 \<longrightarrow>
            started (deliver t2 m2 st') = started st' @ [(nodes st', max 0 t2)])"
proof -
  define pre where "pre = (case inbound_buffer m of None \<Rightarrow> st | Some b \<Rightarrow> schedule t b st)"
  have st': "st' = interrupt pre"
  proof (cases "inbound_buffer m")
    case None
    from onmessage_no_buffer [OF None, of t st] ok int show ?thesis
      by (auto simp add: pre_def None)
  next
    case (Some b)
    from onmessage_buffer [OF Some, of t st] ok int show ?thesis
      by (simp add: pre_def Some)
  qed
  have sub: "set (sources st) \<subseteq> set (sources pre)"
    unfolding pre_def by (cases "inbound_buffer m") (simp_all add: sources_schedule)
  have stop: "stopped pre = stopped st"
    unfolding pre_def by (cases "inbound_buffer m") (simp_all add: schedule_def Let_def)
  have a: "sources st' = []" and b: "nextStartTime st' = 0"
    and c: "stopped st' = stopped st @ sources pre"
    unfolding st' by (simp_all add: interrupt_def stop)
  from c sub have d: "set (sources st) \<subseteq> set (stopped st')" by auto
  have e: "started (deliver t2 m2 st') = started st' @ [(nodes st', max 0 t2)]"
    if "inbound_buffer m2 = Some b2" for m2 b2 t2
    using started_deliver_buffer [OF that, of t2 st'] b by simp
  from a b c d e show ?thesis unfolding pre_def by blast
qed

lemma cursor_step:
  "nextStartTime st \<le> nextStartTime (step e st) \<or>
   is_interruption e \<and> nextStartTime (step e st) = 0"
proof (cases e)
  case (Message t m)
  show ?thesis
  proof (cases "inbound_buffer m")
    case None
    from deliver_no_buffer [OF None, of t st] show ?thesis
      by (auto simp add: Message interrupt_def)
  next
    case (Some b)
    have "nextStartTime st \<le> max (nextStartTime st) t + duration b"
      using inbound_buffer_duration [OF Some] by simp
    then show ?thesis
      by (simp add: Message deliver_buffer [OF Some] nextStartTime_schedule interrupt_def)
  qed
next
  case (Ended source)
  then show ?thesis by (simp add: onended_def)
qed

lemma cursor_run:
  "\<forall>e \<in> set es. \<not> is_interruption e \<Longrightarrow> nextStartTime st \<le> nextStartTime (run es st)"
proof (induction es arbitrary: st)
  case Nil
  then show ?case by simp
next
  case (Cons e es)
  from Cons.prems have "\<not> is_interruption e" by simp
  with cursor_step [of st e] have "nextStartTime st \<le> nextStartTime (step e st)" by blast
  also have "\<dots> \<le> nextStartTime (run es (step e st))"
    using Cons.prems by (intro Cons.IH) simp
  finally show ?case by simp
qed

text \<open>
  C3, as amended: an event never moves the cursor backwards unless it is an interruption,
  and then the cursor is 0 (not the device's clock); over events without an interruption
  the cursor only grows; and every start a message adds is at or after the device time
  of that message.
\<close>

theorem cursor_monotone:
  "(nextStartTime st \<le> nextStartTime (step e st) \<or>
      is_interruption e \<and> nextStartTime (step e st) = 0) \<and>
   ((\<forall>e \<in> set es. \<not> is_interruption e) \<longrightarrow> nextStartTime st \<le> nextStartTime (run es st)) \<and>
   (interrupted m \<and> onmessage t m st = Inr st' \<longrightarrow> nextStartTime st' = 0) \<and>
   (\<exists>new. started (deliver t m st) = started st @ new \<and> (\<forall>(source, when) \<in> set new. t \<le> when))"
proof (intro conjI impI)
  show "nextStartTime st \<le> nextStartTime (step e st) \<or>
      is_interruption e \<and> nextStartTime (step e st) = 0"
    by (rule cursor_step)
next
  assume "\<forall>e \<in> set es. \<not> is_interruption e"
  then show "nextStartTime st \<le> nextStartTime (run es st)" by (rule cursor_run)
next
  assume a: "interrupted m \<and> onmessage t m st = Inr st'"
  show "nextStartTime st' = 0"
  proof (cases "inbound_buffer m")
    case None
    from onmessage_no_buffer [OF None, of t st] a show ?thesis
      by (auto simp add: interrupt_def)
  next
    case (Some b)
    from onmessage_buffer [OF Some, of t st] a show ?thesis
      by (auto simp add: interrupt_def)
  qed
next
  show "\<exists>new. started (deliver t m st) = started st @ new \<and> (\<forall>(source, when) \<in> set new. t \<le> when)"
  proof (cases "inbound_buffer m")
    case None
    from deliver_no_buffer [OF None, of t st]
    have "started (deliver t m st) = started st @ []" by (auto simp add: interrupt_def)
    then show ?thesis by (intro exI [of _ "[]"]) simp
  next
    case (Some b)
    show ?thesis
      by (intro exI [of _ "[(nodes st, max (nextStartTime st) t)]"])
        (simp add: started_deliver_buffer [OF Some])
  qed
qed

text \<open>
  C6: the handler decodes with one channel, so a chunk whose byte length is not a multiple
  of \<open>2 * 1\<close> is a chunk of odd length. Decoding it fails: the 16-bit view raises the
  host's \<^verbatim>\<open>RangeError\<close>, which is the failure the spec's taxonomy names
  \<^verbatim>\<open>MalformedAudioError\<close>. The handler ends before its first write, so the set of
  scheduled sources (and all the state) is as before, and the next chunk is scheduled on
  that state as usual.
\<close>

theorem malformed_chunk_dropped:
  "inlineData m = Data a \<and> a \<noteq> [] \<and> decode a = Inr bytes \<and> length bytes mod (2 * 1) \<noteq> 0 \<longrightarrow>
     decodeAudioData bytes 24000 1 = Inl RangeError \<and>
     onmessage t m st = Inl RangeError \<and>
     sources (deliver t m st) = sources st \<and>
     deliver t m st = st \<and>
     (\<forall>m2 b2 t2. inbound_buffer m2 = Some b2 \<and> \<not> interrupted m2 \<longrightarrow>
        deliver t2 m2 (deliver t m st) = schedule t2 b2 st)"
proof (intro impI)
  assume a: "inlineData m = Data a \<and> a \<noteq> [] \<and> decode a = Inr bytes \<and>
    length bytes mod (2 * 1) \<noteq> 0"
  then have "odd (length bytes)" by (simp add: odd_iff_mod_2_eq_one)
  then have d: "decodeAudioData bytes 24000 1 = Inl RangeError"
    by (rule decodeAudioData_odd)
  with a have r: "onmessage t m st = Inl RangeError" by (simp add: onmessage_def)
  then have u: "deliver t m st = st" by (simp add: deliver_def)
  have n: "\<forall>m2 b2 t2. inbound_buffer m2 = Some b2 \<and> \<not> interrupted m2 \<longrightarrow>
         deliver t2 m2 (deliver t m st) = schedule t2 b2 st"
    unfolding u by (simp add: deliver_buffer)
  from d r u n show "decodeAudioData bytes 24000 1 = Inl RangeError \<and>
     onmessage t m st = Inl RangeError \<and>
     sources (deliver t m st) = sources st \<and>
     deliver t m st = st \<and>
     (\<forall>m2 b2 t2. inbound_buffer m2 = Some b2 \<and> \<not> interrupted m2 \<longrightarrow>
        deliver t2 m2 (deliver t m st) = schedule t2 b2 st)"
    by simp
qed

lemma example_chunk:
  "inbound_buffer \<lparr>inlineData = Data [65, 73, 68, 47, 102, 119, 61, 61], interrupted = False\<rparr> =
     Some \<lparr>sampleRate = 24000, frames = 2, channelData = [[Num (- 1), Num (32767 / 32768)]]\<rparr>"
  by code_simp

theorem playback_gapless_witness:
  "started (deliver 5 \<lparr>inlineData = Data [65, 73, 68, 47, 102, 119, 61, 61], interrupted = False\<rparr>
      (deliver 5 \<lparr>inlineData = Data [65, 73, 68, 47, 102, 119, 61, 61], interrupted = False\<rparr>
        (deliver 5 \<lparr>inlineData = Data [65, 73, 68, 47, 102, 119, 61, 61], interrupted = False\<rparr>
          \<lparr>nextStartTime = 0, sources = [], started = [], stopped = [], nodes = 0\<rparr>))) =
     [(0, 5), (1, 5 + 1 / 12000), (2, 5 + 1 / 6000)]"
proof -
  let ?m = "\<lparr>inlineData = Data [65, 73, 68, 47, 102, 119, 61, 61], interrupted = False\<rparr>"
  let ?b = "\<lparr>sampleRate = 24000, frames = 2, channelData = [[Num (- 1), Num (32767 / 32768)]]\<rparr>"
  let ?s = "\<lparr>nextStartTime = 0, sources = [], started = [], stopped = [], nodes = 0\<rparr>"
  have d: "duration ?b = 1 / 12000" by (simp add: duration_def)
  have h: "inbound_buffer ?m = Some ?b \<and> inbound_buffer ?m = Some ?b \<and>
      inbound_buffer ?m = Some ?b \<and> \<not> interrupted ?m \<and> \<not> interrupted ?m \<and>
      5 \<le> max (nextStartTime ?s) 5 + duration ?b \<and>
      5 \<le> max (nextStartTime ?s) 5 + duration ?b + duration ?b"
    by (simp add: example_chunk d)
  from playback_gapless [of ?m ?b 5 ?s ?m ?b ?m ?b 5 5, THEN conjunct2, rule_format, OF h]
  show ?thesis by (simp add: d)
qed

theorem interruption_clears_witness:
  "onmessage 5 \<lparr>inlineData = Undefined, interrupted = True\<rparr>
     \<lparr>nextStartTime = 7, sources = [0, 1], started = [(0, 1), (1, 4)], stopped = [], nodes = 2\<rparr> =
     Inr \<lparr>nextStartTime = 0, sources = [], started = [(0, 1), (1, 4)], stopped = [0, 1], nodes = 2\<rparr> \<and>
   started (deliver 9 \<lparr>inlineData = Data [65, 73, 68, 47, 102, 119, 61, 61], interrupted = False\<rparr>
      \<lparr>nextStartTime = 0, sources = [], started = [(0, 1), (1, 4)], stopped = [0, 1], nodes = 2\<rparr>) =
     [(0, 1), (1, 4), (2, 9)]"
proof -
  let ?m = "\<lparr>inlineData = Undefined, interrupted = True\<rparr>"
  let ?st = "\<lparr>nextStartTime = 7, sources = [0, 1], started = [(0, 1), (1, 4)], stopped = [], nodes = 2\<rparr>"
  let ?st' = "\<lparr>nextStartTime = 0, sources = [], started = [(0, 1), (1, 4)], stopped = [0, 1], nodes = 2\<rparr>"
  have i: "interrupted ?m" by simp
  have ok: "onmessage 5 ?m ?st = Inr ?st'" by (simp add: onmessage_def interrupt_def)
  from interruption_clears [OF i ok]
  have "\<forall>m2 b2 t2. inbound_buffer m2 = Some b2 \<longrightarrow>
            started (deliver t2 m2 ?st') = started ?st' @ [(nodes ?st', max 0 t2)]"
    by blast
  from this [rule_format, OF example_chunk, of 9] ok show ?thesis by simp
qed

text \<open>
  C3 as stated fails: an interruption at device time 5 leaves the cursor at 0, not at 5.
\<close>

theorem cursor_reset_counterexample:
  "onmessage 5 \<lparr>inlineData = Undefined, interrupted = True\<rparr>
     \<lparr>nextStartTime = 7, sources = [0, 1], started = [(0, 1), (1, 4)], stopped = [], nodes = 2\<rparr> =
     Inr \<lparr>nextStartTime = 0, sources = [], started = [(0, 1), (1, 4)], stopped = [0, 1], nodes = 2\<rparr> \<and>
   nextStartTime \<lparr>nextStartTime = 0, sources = [], started = [(0, 1), (1, 4)], stopped = [0, 1], nodes = 2\<rparr> \<noteq> 5"
  by (simp add: onmessage_def interrupt_def)

theorem cursor_monotone_witness:
  "nextStartTime \<lparr>nextStartTime = 7, sources = [0, 1], started = [(0, 1), (1, 4)], stopped = [], nodes = 2\<rparr> \<le>
     nextStartTime (run [Message 5 \<lparr>inlineData = Data [65, 73, 68, 47, 102, 119, 61, 61], interrupted = False\<rparr>, Ended 0]
        \<lparr>nextStartTime = 7, sources = [0, 1], started = [(0, 1), (1, 4)], stopped = [], nodes = 2\<rparr>) \<and>
   nextStartTime \<lparr>nextStartTime = 0, sources = [], started = [(0, 1), (1, 4)], stopped = [0, 1], nodes = 2\<rparr> = 0"
proof -
  let ?es = "[Message 5 \<lparr>inlineData = Data [65, 73, 68, 47, 102, 119, 61, 61], interrupted = False\<rparr>, Ended 0]"
  let ?st = "\<lparr>nextStartTime = 7, sources = [0, 1], started = [(0, 1), (1, 4)], stopped = [], nodes = 2\<rparr>"
  let ?st' = "\<lparr>nextStartTime = 0, sources = [], started = [(0, 1), (1, 4)], stopped = [0, 1], nodes = 2\<rparr>"
  let ?m = "\<lparr>inlineData = Undefined, interrupted = True\<rparr>"
  have h: "\<forall>e \<in> set ?es. \<not> is_interruption e" by simp
  have ok: "interrupted ?m \<and> onmessage 5 ?m ?st = Inr ?st'"
    by (simp add: onmessage_def interrupt_def)
  note c = cursor_monotone [of ?st "Ended 0" ?es ?m 5 ?st']
  from c [THEN conjunct2, THEN conjunct1, THEN mp, OF h]
    c [THEN conjunct2, THEN conjunct2, THEN conjunct1, THEN mp, OF ok]
  show ?thesis by blast
qed

theorem malformed_chunk_dropped_witness:
  "onmessage 5 \<lparr>inlineData = Data [65, 73, 68, 47], interrupted = False\<rparr>
     \<lparr>nextStartTime = 7, sources = [0, 1], started = [(0, 1), (1, 4)], stopped = [], nodes = 2\<rparr> =
     Inl RangeError \<and>
   sources (deliver 5 \<lparr>inlineData = Data [65, 73, 68, 47], interrupted = False\<rparr>
     \<lparr>nextStartTime = 7, sources = [0, 1], started = [(0, 1), (1, 4)], stopped = [], nodes = 2\<rparr>) =
     [0, 1] \<and>
   started (deliver 9 \<lparr>inlineData = Data [65, 73, 68, 47, 102, 119, 61, 61], interrupted = False\<rparr>
     (deliver 5 \<lparr>inlineData = Data [65, 73, 68, 47], interrupted = False\<rparr>
       \<lparr>nextStartTime = 7, sources = [0, 1], started = [(0, 1), (1, 4)], stopped = [],
          nodes = 2\<rparr>)) =
     [(0, 1), (1, 4), (2, 9)]"
proof -
  let ?m = "\<lparr>inlineData = Data [65, 73, 68, 47], interrupted = False\<rparr>"
  let ?m2 = "\<lparr>inlineData = Data [65, 73, 68, 47, 102, 119, 61, 61], interrupted = False\<rparr>"
  let ?st = "\<lparr>nextStartTime = 7, sources = [0, 1], started = [(0, 1), (1, 4)], stopped = [], nodes = 2\<rparr>"
  have dec: "decode [65, 73, 68, 47] = Inr [0, 128, 255]" by code_simp
  have h: "inlineData ?m = Data [65, 73, 68, 47] \<and> [65, 73, 68, 47] \<noteq> ([] :: jsstring) \<and>
      decode [65, 73, 68, 47] = Inr [0, 128, 255] \<and> length [0, 128, 255 :: byte] mod (2 * 1) \<noteq> 0"
    using dec by simp
  note c = malformed_chunk_dropped [of ?m "[65, 73, 68, 47]" "[0, 128, 255]" 5 ?st, THEN mp, OF h]
  from c have a: "onmessage 5 ?m ?st = Inl RangeError"
    and b: "sources (deliver 5 ?m ?st) = sources ?st"
    and n: "\<forall>m2 b2 t2. inbound_buffer m2 = Some b2 \<and> \<not> interrupted m2 \<longrightarrow>
         deliver t2 m2 (deliver 5 ?m ?st) = schedule t2 b2 ?st"
    by blast+
  from n [rule_format, of ?m2 _ 9] example_chunk
  have "deliver 9 ?m2 (deliver 5 ?m ?st) =
      schedule 9 \<lparr>sampleRate = 24000, frames = 2,
        channelData = [[Num (- 1), Num (32767 / 32768)]]\<rparr> ?st"
    by simp
  then have "started (deliver 9 ?m2 (deliver 5 ?m ?st)) = [(0, 1), (1, 4), (2, 9)]"
    by (simp add: started_schedule)
  with a b show ?thesis by simp
qed

subsection \<open>The life cycle of the component\<close>



text \<open>
  C8 as stated fails: an error event on a started session leaves the microphone stream,
  both audio contexts and the session as they were and \<^verbatim>\<open>isActive\<close> true; the status
  \<^verbatim>\<open>Error\<close> is not final either, a later close event sets \<^verbatim>\<open>Idle\<close>.
\<close>

theorem onerror_counterexample:
  "onerror (startSession None initial) =
     \<lparr>isActive = True, status = ''Error'', sessionRef = Some 0, audioContextRef = Some 1,
      audioContexts = 2, mediaStreams = 1, sessions = 1, closeCalls = [], logged = 1\<rparr> \<and>
   status (onclose (onerror (startSession None initial))) = ''Idle''"
  by (simp add: onerror_def onclose_def startSession_def initial_def onopen_def Let_def)

text \<open>
  C8, as amended: an error event writes the error to the console and sets the status
  \<^verbatim>\<open>Error\<close>; it changes nothing else: no resource is given back, no \<^verbatim>\<open>close()\<close> is
  called, \<^verbatim>\<open>isActive\<close> and the refs stay.
\<close>

theorem onerror_status_only:
  "status (onerror c) = ''Error'' \<and> logged (onerror c) = Suc (logged c) \<and>
   isActive (onerror c) = isActive c \<and> sessionRef (onerror c) = sessionRef c \<and>
   audioContextRef (onerror c) = audioContextRef c \<and>
   audioContexts (onerror c) = audioContexts c \<and> mediaStreams (onerror c) = mediaStreams c \<and>
   sessions (onerror c) = sessions c \<and> closeCalls (onerror c) = closeCalls c"
  by (simp add: onerror_def)

text \<open>
  C9 as stated fails: when the microphone is denied on the first start, two audio contexts
  have been constructed already and the output context is stored in its ref.
\<close>

theorem permission_denied_counterexample:
  "startSession (Some GetUserMedia) initial =
     \<lparr>isActive = False, status = ''Permission Denied'', sessionRef = None,
      audioContextRef = Some 1, audioContexts = 2, mediaStreams = 0, sessions = 0,
      closeCalls = [], logged = 1\<rparr>"
  by (simp add: startSession_def initial_def catch_block_def Let_def)

text \<open>
  C9, as amended: when the microphone is denied, \<^verbatim>\<open>startSession\<close> ends with the status
  \<^verbatim>\<open>Permission Denied\<close> and the error on the console; no microphone stream and no
  session exist more than before, and \<^verbatim>\<open>sessionRef\<close> and \<^verbatim>\<open>isActive\<close> are untouched.
  The two audio contexts were constructed before the request and stay.
\<close>

theorem permission_denied:
  "status (startSession (Some GetUserMedia) c) = ''Permission Denied'' \<and>
   logged (startSession (Some GetUserMedia) c) = Suc (logged c) \<and>
   mediaStreams (startSession (Some GetUserMedia) c) = mediaStreams c \<and>
   sessions (startSession (Some GetUserMedia) c) = sessions c \<and>
   sessionRef (startSession (Some GetUserMedia) c) = sessionRef c \<and>
   isActive (startSession (Some GetUserMedia) c) = isActive c \<and>
   closeCalls (startSession (Some GetUserMedia) c) = closeCalls c \<and>
   audioContexts (startSession (Some GetUserMedia) c) = audioContexts c + 2 \<and>
   audioContextRef (startSession (Some GetUserMedia) c) = Some (Suc (audioContexts c))"
  by (simp add: startSession_def catch_block_def Let_def)

end
